theory Spec2Isabelle
  imports Complex_Main "HOL-Library.AList"
begin

section \<open>Exceptions and configuration\<close>

text \<open>
  Every \<^verbatim>\<open>raise\<close> of the service is a value of \<open>exn\<close>; a function that may raise returns
  \<open>exn + 'a\<close> with \<open>Inl\<close> for the exception.
  \<^item> \<open>EmptyRing\<close>: \<^verbatim>\<open>Exception("Hash ring is empty")\<close> of \<^verbatim>\<open>ConsistentHash.get_node\<close>;
  \<^item> \<open>UnknownNode\<close>: the \<^verbatim>\<open>ValueError\<close> of \<^verbatim>\<open>ConsistentHash.remove_node\<close>;
  \<^item> \<open>NoHealthyNodes\<close>: \<^verbatim>\<open>Exception("No healthy Redis nodes available")\<close>;
  \<^item> \<open>RedisError\<close>: \<^verbatim>\<open>redis.RedisError\<close> raised by a client call;
  \<^item> \<open>Failed\<close>: the \<^verbatim>\<open>Exception("Failed to ...")\<close> that \<^verbatim>\<open>RedisManager\<close> raises in
    place of a \<^verbatim>\<open>RedisError\<close>;
  \<^item> \<open>KeyError\<close>, \<open>IndexError\<close>, \<open>AttributeError\<close>, \<open>TypeError\<close>: Python's own.
\<close>

datatype exn =
  EmptyRing | UnknownNode | NoHealthyNodes | RedisError | Failed
  | KeyError | IndexError | AttributeError | TypeError

text \<open>The fields of \<^verbatim>\<open>Settings\<close> (config.py) that the counting core reads, with their defaults.\<close>

record Settings =
  REDIS_RETRY_ATTEMPTS :: int
  VIRTUAL_NODES :: int
  CACHE_TTL_SECONDS :: int
  CACHE_CAPACITY :: int

definition settings :: Settings where
  "settings = \<lparr>REDIS_RETRY_ATTEMPTS = 3, VIRTUAL_NODES = 100,
                CACHE_TTL_SECONDS = 5, CACHE_CAPACITY = 1000\<rparr>"

section \<open>Python dictionaries\<close>

text \<open>
  A \<^verbatim>\<open>dict\<close> is an association list in insertion order: \<^verbatim>\<open>d[k] = v\<close> is
  \<^const>\<open>AList.update\<close> (in place when the key is present, appended otherwise),
  \<^verbatim>\<open>d.pop(k, None)\<close> and \<^verbatim>\<open>del d[k]\<close> on a present key are \<^const>\<open>AList.delete\<close>,
  \<^verbatim>\<open>k in d\<close> is \<open>map_of d k \<noteq> None\<close>, and \<^verbatim>\<open>d[k]\<close> raises \<^verbatim>\<open>KeyError\<close> on a missing key.
\<close>

definition getitem :: "('k \<times> 'v) list \<Rightarrow> 'k \<Rightarrow> exn + 'v" where
  "getitem d k = (case map_of d k of None \<Rightarrow> Inl KeyError | Some v \<Rightarrow> Inr v)"

text \<open>\<^verbatim>\<open>d.get(k, 0)\<close> on a dictionary of integers.\<close>

definition get0 :: "('k \<times> int) list \<Rightarrow> 'k \<Rightarrow> int" where
  "get0 d k = (case map_of d k of None \<Rightarrow> 0 | Some v \<Rightarrow> v)"

text \<open>
  The two statements
  \<^verbatim>\<open>if k not in d: d[k] = 0\<close> and \<^verbatim>\<open>d[k] += n\<close>
  of \<^verbatim>\<open>increment_visit\<close> and of the restore branch of \<^verbatim>\<open>_flush_write_buffer\<close>.
\<close>

definition add_count :: "('k \<times> int) list \<Rightarrow> 'k \<Rightarrow> int \<Rightarrow> ('k \<times> int) list" where
  "add_count d k n =
     (let d1 = (if map_of d k = None then AList.update k 0 d else d)
      in AList.update k (get0 d1 k + n) d1)"

section \<open>The consistent-hash ring (consistent\_hash.py)\<close>

text \<open>
  \<^verbatim>\<open>_get_hash\<close> is \<^verbatim>\<open>int(hashlib.md5(key.encode()).hexdigest(), 16)\<close>. MD5 belongs to the
  Python library, not to the repository, so every ring operation takes the hash function
  as its first argument \<open>md5 :: string \<Rightarrow> int\<close> (a Python integer).
\<close>

text \<open>\<^verbatim>\<open>str(i)\<close> for \<open>i \<ge> 0\<close>, and the label \<^verbatim>\<open>f"{node}_{i}"\<close> of a virtual node.\<close>

fun str_nat :: "nat \<Rightarrow> string" where
  "str_nat n =
     (if n < 10 then [''0123456789'' ! n]
      else str_nat (n div 10) @ [''0123456789'' ! (n mod 10)])"

declare str_nat.simps [simp del]

definition virtual_node_key :: "string \<Rightarrow> nat \<Rightarrow> string" where
  "virtual_node_key node i = node @ ''_'' @ str_nat i"

record ConsistentHash =
  virtual_nodes :: int
  hash_ring :: "(int \<times> string) list"
  sorted_keys :: "int list"
  nodes :: "string set"

text \<open>
  The collision loop of \<^verbatim>\<open>add_node\<close>:
  \<^verbatim>\<open>while hash_key in self.hash_ring: virtual_node_key = f"{virtual_node_key}_collision"; hash_key = ...\<close>.
  Nothing bounds it, so it is a partial function: \<open>None\<close> is a loop that never ends.
\<close>

partial_function (option) rehash ::
  "(string \<Rightarrow> int) \<Rightarrow> (int \<times> string) list \<Rightarrow> string \<Rightarrow> int \<Rightarrow> int option" where
  "rehash md5 ring vkey hash_key =
     (if map_of ring hash_key \<noteq> None
      then rehash md5 ring (vkey @ ''_collision'') (md5 (vkey @ ''_collision''))
      else Some hash_key)"

declare rehash.simps [code]

text \<open>The \<^verbatim>\<open>for i in range(self.virtual_nodes)\<close> loop of \<^verbatim>\<open>add_node\<close>.\<close>

fun add_virtual ::
  "(string \<Rightarrow> int) \<Rightarrow> string \<Rightarrow> nat list \<Rightarrow> (int \<times> string) list \<Rightarrow> (int \<times> string) list option" where
  "add_virtual md5 node [] ring = Some ring"
| "add_virtual md5 node (i # is) ring =
     (case rehash md5 ring (virtual_node_key node i) (md5 (virtual_node_key node i)) of
        None \<Rightarrow> None
      | Some hash_key \<Rightarrow> add_virtual md5 node is (AList.update hash_key node ring))"

definition add_node :: "(string \<Rightarrow> int) \<Rightarrow> ConsistentHash \<Rightarrow> string \<Rightarrow> ConsistentHash option" where
  "add_node md5 ch node =
     (if node \<in> nodes ch then Some ch
      else case add_virtual md5 node [0..<nat (virtual_nodes ch)] (hash_ring ch) of
        None \<Rightarrow> None
      | Some ring \<Rightarrow>
          Some (ch\<lparr>nodes := insert node (nodes ch), hash_ring := ring,
                   sorted_keys := sort (map fst ring)\<rparr>))"

definition remove_node :: "(string \<Rightarrow> int) \<Rightarrow> ConsistentHash \<Rightarrow> string \<Rightarrow> exn + ConsistentHash" where
  "remove_node md5 ch node =
     (if node \<notin> nodes ch then Inl UnknownNode
      else
        let keys_to_remove = map (\<lambda>i. md5 (virtual_node_key node i)) [0..<nat (virtual_nodes ch)];
            ring = fold AList.delete keys_to_remove (hash_ring ch)
        in Inr (ch\<lparr>nodes := nodes ch - {node}, hash_ring := ring,
                   sorted_keys := sort (map fst ring)\<rparr>))"

text \<open>
  \<^verbatim>\<open>bisect.bisect\<close> is \<^verbatim>\<open>bisect_right\<close> of the Python library with \<^verbatim>\<open>lo = 0\<close> and
  \<^verbatim>\<open>hi = len(a)\<close>:
  \<^verbatim>\<open>while lo < hi: mid = (lo + hi) // 2; if x < a[mid]: hi = mid else: lo = mid + 1\<close>.
\<close>

function bisect_loop :: "int list \<Rightarrow> int \<Rightarrow> nat \<Rightarrow> nat \<Rightarrow> nat" where
  "bisect_loop a x lo hi =
     (if lo < hi then
        (let mid = (lo + hi) div 2
         in if x < a ! mid then bisect_loop a x lo mid else bisect_loop a x (mid + 1) hi)
      else lo)"
  by pat_completeness auto
termination
  by (relation "measure (\<lambda>(a, x, lo, hi). hi - lo)") auto

declare bisect_loop.simps [simp del]

definition bisect :: "int list \<Rightarrow> int \<Rightarrow> nat" where
  "bisect a x = bisect_loop a x 0 (length a)"

text \<open>\<^verbatim>\<open>a[idx]\<close> on a list, for \<open>idx \<ge> 0\<close>.\<close>

definition list_index :: "'a list \<Rightarrow> nat \<Rightarrow> exn + 'a" where
  "list_index a idx = (if idx < length a then Inr (a ! idx) else Inl IndexError)"

definition get_node :: "(string \<Rightarrow> int) \<Rightarrow> ConsistentHash \<Rightarrow> string \<Rightarrow> exn + string" where
  "get_node md5 ch key =
     (if hash_ring ch = [] then Inl EmptyRing
      else
        let key_hash = md5 key;
            idx = bisect (sorted_keys ch) key_hash;
            idx = (if idx = length (sorted_keys ch) then 0 else idx)
        in case list_index (sorted_keys ch) idx of
             Inl e \<Rightarrow> Inl e
           | Inr k \<Rightarrow> getitem (hash_ring ch) k)"

text \<open>\<^verbatim>\<open>ConsistentHash.__init__\<close>: an empty ring, then \<^verbatim>\<open>add_node\<close> for each node in turn.\<close>

fun add_nodes :: "(string \<Rightarrow> int) \<Rightarrow> ConsistentHash \<Rightarrow> string list \<Rightarrow> ConsistentHash option" where
  "add_nodes md5 ch [] = Some ch"
| "add_nodes md5 ch (node # rest) =
     (case add_node md5 ch node of None \<Rightarrow> None | Some ch' \<Rightarrow> add_nodes md5 ch' rest)"

definition ConsistentHash_init :: "(string \<Rightarrow> int) \<Rightarrow> string list \<Rightarrow> int \<Rightarrow> ConsistentHash option" where
  "ConsistentHash_init md5 ns v =
     add_nodes md5 \<lparr>virtual_nodes = v, hash_ring = [], sorted_keys = [], nodes = {}\<rparr> ns"

text \<open>
  The state that \<^verbatim>\<open>add_node\<close> and \<^verbatim>\<open>remove_node\<close> establish on their last line:
  \<^verbatim>\<open>self.sorted_keys = sorted(self.hash_ring.keys())\<close>, over a dictionary (distinct keys).
\<close>

definition ring_ok :: "ConsistentHash \<Rightarrow> bool" where
  "ring_ok ch \<longleftrightarrow>
     distinct (map fst (hash_ring ch)) \<and> sorted_keys ch = sort (map fst (hash_ring ch))"

text \<open>
  The lookup in the words of the specification: the first hash of the sorted entry list
  that is strictly greater than the key's hash, else the entry at index 0.
\<close>

definition route_spec :: "(string \<Rightarrow> int) \<Rightarrow> ConsistentHash \<Rightarrow> string \<Rightarrow> exn + string" where
  "route_spec md5 ch key =
     (if hash_ring ch = [] then Inl EmptyRing
      else case find (\<lambda>k. md5 key < k) (sort (map fst (hash_ring ch))) of
             Some k \<Rightarrow> getitem (hash_ring ch) k
           | None \<Rightarrow> getitem (hash_ring ch) (sort (map fst (hash_ring ch)) ! 0))"

section \<open>The Redis servers\<close>

text \<open>
  The Redis client and the servers behind it are outside the repository. A server is a
  dictionary from storage keys to integers, one per client handle (the URL the client's
  connection pool was built from). Whether a client call raises \<^verbatim>\<open>redis.RedisError\<close>
  (connection refused, timeout) is decided by the environment: \<open>faults\<close> is the script of
  the calls to come, \<open>True\<close> for a call that raises, and a call beyond the end of the
  script succeeds. A call that raises leaves the server unchanged.
\<close>

record redis_world =
  servers :: "string \<Rightarrow> string \<rightharpoonup> int"
  faults :: "bool list"

definition raises :: "redis_world \<Rightarrow> bool" where
  "raises w = (case faults w of [] \<Rightarrow> False | f # _ \<Rightarrow> f)"

definition client_incr :: "redis_world \<Rightarrow> string \<Rightarrow> string \<Rightarrow> int \<Rightarrow> (exn + int) \<times> redis_world" where
  "client_incr w client key amount =
     (if raises w then (Inl RedisError, w\<lparr>faults := tl (faults w)\<rparr>)
      else
        let v = (case servers w client key of None \<Rightarrow> 0 | Some old \<Rightarrow> old) + amount
        in (Inr v, w\<lparr>servers := (servers w)(client := (servers w client)(key \<mapsto> v)),
                     faults := tl (faults w)\<rparr>))"

definition client_get :: "redis_world \<Rightarrow> string \<Rightarrow> string \<Rightarrow> (exn + int option) \<times> redis_world" where
  "client_get w client key =
     (if raises w then (Inl RedisError, w\<lparr>faults := tl (faults w)\<rparr>)
      else (Inr (servers w client key), w\<lparr>faults := tl (faults w)\<rparr>))"

definition client_delete :: "redis_world \<Rightarrow> string \<Rightarrow> string \<Rightarrow> (exn + int) \<times> redis_world" where
  "client_delete w client key =
     (if raises w then (Inl RedisError, w\<lparr>faults := tl (faults w)\<rparr>)
      else (Inr (if servers w client key = None then 0 else 1),
            w\<lparr>servers := (servers w)(client := (servers w client)(key := None)),
               faults := tl (faults w)\<rparr>))"

section \<open>The shard manager (redis\_manager.py)\<close>

text \<open>
  \<open>redis_clients\<close> maps a node to its client handle, \<open>node_health\<close> a node to its health
  bit; both are dictionaries keyed by the node URL.
\<close>

record RedisManager =
  redis_nodes :: "string list"
  consistent_hash :: ConsistentHash
  node_health :: "(string \<times> bool) list"
  redis_clients :: "(string \<times> string) list"

text \<open>
  The \<^verbatim>\<open>for _ in range(len(self.redis_nodes))\<close> loop of \<^verbatim>\<open>get_connection\<close> with its
  \<^verbatim>\<open>else\<close> clause; the last argument is the number of iterations left.
\<close>

fun fallback :: "(string \<Rightarrow> int) \<Rightarrow> RedisManager \<Rightarrow> string \<Rightarrow> nat \<Rightarrow> exn + string" where
  "fallback md5 rm node 0 = Inl NoHealthyNodes"
| "fallback md5 rm node (Suc n) =
     (case get_node md5 (consistent_hash rm) (''fallback_'' @ node) of
        Inl e \<Rightarrow> Inl e
      | Inr node' \<Rightarrow>
          (case getitem (node_health rm) node' of
             Inl e \<Rightarrow> Inl e
           | Inr healthy \<Rightarrow> if healthy then Inr node' else fallback md5 rm node' n))"

text \<open>\<^verbatim>\<open>get_connection\<close> returns the pair (client, node).\<close>

definition get_connection :: "(string \<Rightarrow> int) \<Rightarrow> RedisManager \<Rightarrow> string \<Rightarrow> exn + (string \<times> string)" where
  "get_connection md5 rm key =
     (case get_node md5 (consistent_hash rm) key of
        Inl e \<Rightarrow> Inl e
      | Inr node \<Rightarrow>
          (case getitem (node_health rm) node of
             Inl e \<Rightarrow> Inl e
           | Inr healthy \<Rightarrow>
               (case (if \<not> healthy then fallback md5 rm node (length (redis_nodes rm)) else Inr node) of
                  Inl e \<Rightarrow> Inl e
                | Inr node' \<Rightarrow>
                    (case getitem (redis_clients rm) node' of
                       Inl e \<Rightarrow> Inl e
                     | Inr client \<Rightarrow> Inr (client, node')))))"

text \<open>
  The retry loops \<^verbatim>\<open>for attempt in range(settings.REDIS_RETRY_ATTEMPTS)\<close>. The numeric
  argument is the number of attempts left, so \<^verbatim>\<open>attempt == REDIS_RETRY_ATTEMPTS - 1\<close> is
  "none left after this one". Only \<^verbatim>\<open>redis.RedisError\<close> is caught: an exception of
  \<^verbatim>\<open>get_connection\<close> leaves the loop at once. A loop that runs out without returning
  makes the method return \<^verbatim>\<open>None\<close> (the inner \<open>option\<close>). The back-off sleep changes no
  state.
\<close>

fun increment_attempts ::
  "(string \<Rightarrow> int) \<Rightarrow> RedisManager \<Rightarrow> string \<Rightarrow> int \<Rightarrow> nat \<Rightarrow> redis_world
     \<Rightarrow> (exn + int option) \<times> redis_world" where
  "increment_attempts md5 rm key amount 0 w = (Inr None, w)"
| "increment_attempts md5 rm key amount (Suc left) w =
     (case get_connection md5 rm key of
        Inl e \<Rightarrow> (Inl e, w)
      | Inr (client, node) \<Rightarrow>
          (case client_incr w client key amount of
             (Inr v, w') \<Rightarrow> (Inr (Some v), w')
           | (Inl e, w') \<Rightarrow>
               if left = 0 then (Inl Failed, w')
               else increment_attempts md5 rm key amount left w'))"

definition RedisManager_increment ::
  "Settings \<Rightarrow> (string \<Rightarrow> int) \<Rightarrow> RedisManager \<Rightarrow> string \<Rightarrow> int \<Rightarrow> redis_world
     \<Rightarrow> (exn + int option) \<times> redis_world" where
  "RedisManager_increment cfg md5 rm key amount w =
     increment_attempts md5 rm key amount (nat (REDIS_RETRY_ATTEMPTS cfg)) w"

fun get_attempts ::
  "(string \<Rightarrow> int) \<Rightarrow> RedisManager \<Rightarrow> string \<Rightarrow> nat \<Rightarrow> redis_world
     \<Rightarrow> (exn + (int \<times> string) option) \<times> redis_world" where
  "get_attempts md5 rm key 0 w = (Inr None, w)"
| "get_attempts md5 rm key (Suc left) w =
     (case get_connection md5 rm key of
        Inl e \<Rightarrow> (Inl e, w)
      | Inr (client, node) \<Rightarrow>
          (case client_get w client key of
             (Inr v, w') \<Rightarrow> (Inr (Some (case v of None \<Rightarrow> 0 | Some n \<Rightarrow> n, node)), w')
           | (Inl e, w') \<Rightarrow>
               if left = 0 then (Inl Failed, w')
               else get_attempts md5 rm key left w'))"

definition RedisManager_get ::
  "Settings \<Rightarrow> (string \<Rightarrow> int) \<Rightarrow> RedisManager \<Rightarrow> string \<Rightarrow> redis_world
     \<Rightarrow> (exn + (int \<times> string) option) \<times> redis_world" where
  "RedisManager_get cfg md5 rm key w =
     get_attempts md5 rm key (nat (REDIS_RETRY_ATTEMPTS cfg)) w"

definition RedisManager_reset ::
  "(string \<Rightarrow> int) \<Rightarrow> RedisManager \<Rightarrow> string \<Rightarrow> redis_world \<Rightarrow> (exn + bool) \<times> redis_world" where
  "RedisManager_reset md5 rm key w =
     (case get_connection md5 rm key of
        Inl e \<Rightarrow> (Inl e, w)
      | Inr (client, node) \<Rightarrow>
          (case client_delete w client key of
             (Inr n, w') \<Rightarrow> (Inr (n \<noteq> 0), w')
           | (Inl e, w') \<Rightarrow> (Inl Failed, w')))"



section \<open>The counter service (visit\_counter.py)\<close>

datatype CounterStatusEnum = ACTIVE | INACTIVE

text \<open>\<^verbatim>\<open>CounterMetrics\<close> (schemas/counter.py) declares exactly these four fields.\<close>

record CounterMetrics =
  visits :: int
  status :: CounterStatusEnum
  cache_size :: int
  last_update :: "real option"

text \<open>
  The statement \<^verbatim>\<open>self.metrics.<attr> += 1\<close>. It reads the attribute first. The two integer
  fields can be incremented; \<^verbatim>\<open>status\<close> (a string enum) and \<^verbatim>\<open>last_update\<close> (\<^verbatim>\<open>None\<close> or a
  \<^verbatim>\<open>datetime\<close>) cannot be added to \<^verbatim>\<open>1\<close>; any other name is not an attribute of the object,
  and reading it raises \<^verbatim>\<open>AttributeError\<close>.
\<close>

definition metrics_incr :: "CounterMetrics \<Rightarrow> string \<Rightarrow> exn + CounterMetrics" where
  "metrics_incr m attr =
     (if attr = ''visits'' then Inr (m\<lparr>visits := visits m + 1\<rparr>)
      else if attr = ''cache_size'' then Inr (m\<lparr>cache_size := cache_size m + 1\<rparr>)
      else if attr = ''status'' \<or> attr = ''last_update'' then Inl TypeError
      else Inl AttributeError)"

text \<open>A cache entry \<^verbatim>\<open>{'value': count, 'timestamp': datetime.now()}\<close>; times are in seconds.\<close>

record cache_entry =
  entry_value :: int
  timestamp :: real

record VisitCounterService =
  redis_manager :: RedisManager
  cache :: "(string \<times> cache_entry) list"
  write_buffer :: "(string \<times> int) list"
  last_write_time :: real
  metrics :: CounterMetrics

text \<open>
  An operation of the service runs on the pair of the service object and the Redis
  servers, at the time \<open>now\<close> that \<^verbatim>\<open>datetime.now()\<close> returns during it.
\<close>

type_synonym system = "VisitCounterService \<times> redis_world"



text \<open>
  One iteration of the loop \<^verbatim>\<open>for page_id, count in buffer_to_write.items()\<close> of
  \<^verbatim>\<open>_flush_write_buffer\<close>: any exception of \<^verbatim>\<open>redis_manager.increment\<close> is caught and the
  count is added back to the live buffer.
\<close>

definition flush_item ::
  "Settings \<Rightarrow> (string \<Rightarrow> int) \<Rightarrow> string \<times> int \<Rightarrow> system \<Rightarrow> system" where
  "flush_item cfg md5 item sw =
     (case item of (page_id, count) \<Rightarrow>
      case sw of (s, w) \<Rightarrow>
        if count > 0 then
          (case RedisManager_increment cfg md5 (redis_manager s) (''visits:'' @ page_id) count w of
             (Inr r, w') \<Rightarrow> (s, w')
           | (Inl e, w') \<Rightarrow> (s\<lparr>write_buffer := add_count (write_buffer s) page_id count\<rparr>, w'))
        else (s, w))"

fun flush_items ::
  "Settings \<Rightarrow> (string \<Rightarrow> int) \<Rightarrow> (string \<times> int) list \<Rightarrow> system \<Rightarrow> system" where
  "flush_items cfg md5 [] sw = sw"
| "flush_items cfg md5 (item # rest) sw = flush_items cfg md5 rest (flush_item cfg md5 item sw)"

definition flush_write_buffer :: "Settings \<Rightarrow> (string \<Rightarrow> int) \<Rightarrow> real \<Rightarrow> system \<Rightarrow> system" where
  "flush_write_buffer cfg md5 now sw =
     (case sw of (s, w) \<Rightarrow>
        if write_buffer s = [] then (s, w)
        else
          let buffer_to_write = write_buffer s;
              (s', w') = flush_items cfg md5 buffer_to_write (s\<lparr>write_buffer := []\<rparr>, w)
          in (s'\<lparr>last_write_time := now\<rparr>, w'))"

text \<open>
  \<^verbatim>\<open>increment_visit\<close>: nothing in its \<^verbatim>\<open>try\<close> block can raise, and it touches no server.
\<close>

definition increment_visit :: "string \<Rightarrow> VisitCounterService \<Rightarrow> VisitCounterService" where
  "increment_visit page_id s =
     (let cache_key = ''visits:'' @ page_id
      in s\<lparr>write_buffer := add_count (write_buffer s) page_id 1,
           cache := (if map_of (cache s) cache_key \<noteq> None
                     then AList.delete cache_key (cache s) else cache s)\<rparr>)"

text \<open>
  \<^verbatim>\<open>get_visit_count\<close>, lines 145 to 157: the read-through after the miss counter. Unpacking
  the \<^verbatim>\<open>None\<close> that \<^verbatim>\<open>redis_manager.get\<close> returns when its loop runs out is a
  \<^verbatim>\<open>TypeError\<close>.
\<close>

definition read_through ::
  "Settings \<Rightarrow> (string \<Rightarrow> int) \<Rightarrow> real \<Rightarrow> string \<Rightarrow> system \<Rightarrow> (exn + int \<times> string) \<times> system" where
  "read_through cfg md5 now page_id sw =
     (let cache_key = ''visits:'' @ page_id;
          (s1, w1) = flush_write_buffer cfg md5 now sw
      in case RedisManager_get cfg md5 (redis_manager s1) cache_key w1 of
           (Inl e, w2) \<Rightarrow> (Inl e, (s1, w2))
         | (Inr None, w2) \<Rightarrow> (Inl TypeError, (s1, w2))
         | (Inr (Some (count, node)), w2) \<Rightarrow>
             let count = (if map_of (write_buffer s1) page_id \<noteq> None
                          then count + get0 (write_buffer s1) page_id else count);
                 s2 = s1\<lparr>cache := AList.update cache_key
                                     \<lparr>entry_value = count, timestamp = now\<rparr> (cache s1)\<rparr>
             in (Inr (count, ''redis_'' @ node), (s2, w2)))"

text \<open>
  The \<^verbatim>\<open>try\<close> block of \<^verbatim>\<open>get_visit_count\<close> (lines 137 to 157), with the state at the point
  where it returns or raises.
\<close>

definition get_visit_count_try ::
  "Settings \<Rightarrow> (string \<Rightarrow> int) \<Rightarrow> real \<Rightarrow> string \<Rightarrow> system \<Rightarrow> (exn + int \<times> string) \<times> system" where
  "get_visit_count_try cfg md5 now page_id sw =
     (case sw of (s, w) \<Rightarrow>
      let cache_key = ''visits:'' @ page_id;
          hit = (case map_of (cache s) cache_key of
                   None \<Rightarrow> None
                 | Some cache_entry \<Rightarrow>
                     if now - timestamp cache_entry < real_of_int (CACHE_TTL_SECONDS cfg)
                     then Some cache_entry else None)
      in case hit of
           Some cache_entry \<Rightarrow>
             (case metrics_incr (metrics s) ''cache_hits'' of
                Inl e \<Rightarrow> (Inl e, (s, w))
              | Inr m \<Rightarrow> (Inr (entry_value cache_entry, ''in_memory''), (s\<lparr>metrics := m\<rparr>, w)))
         | None \<Rightarrow>
             (case metrics_incr (metrics s) ''cache_misses'' of
                Inl e \<Rightarrow> (Inl e, (s, w))
              | Inr m \<Rightarrow> read_through cfg md5 now page_id (s\<lparr>metrics := m\<rparr>, w)))"

text \<open>
  \<^verbatim>\<open>get_visit_count\<close>: the \<^verbatim>\<open>except Exception\<close> handler turns every exception of the block
  into the pair \<^verbatim>\<open>(self.write_buffer.get(page_id, 0), "write_buffer")\<close>.
\<close>

definition get_visit_count ::
  "Settings \<Rightarrow> (string \<Rightarrow> int) \<Rightarrow> real \<Rightarrow> string \<Rightarrow> system \<Rightarrow> (exn + int \<times> string) \<times> system" where
  "get_visit_count cfg md5 now page_id sw =
     (case get_visit_count_try cfg md5 now page_id sw of
        (Inr r, sw') \<Rightarrow> (Inr r, sw')
      | (Inl e, (s', w')) \<Rightarrow> (Inr (get0 (write_buffer s') page_id, ''write_buffer''), (s', w')))"

text \<open>\<^verbatim>\<open>reset_counter\<close>: the handler logs and re-raises.\<close>

definition reset_counter ::
  "(string \<Rightarrow> int) \<Rightarrow> string \<Rightarrow> system \<Rightarrow> (exn + bool) \<times> system" where
  "reset_counter md5 page_id sw =
     (case sw of (s, w) \<Rightarrow>
      let cache_key = ''visits:'' @ page_id;
          s1 = s\<lparr>cache := AList.delete cache_key (cache s),
                 write_buffer := AList.delete page_id (write_buffer s)\<rparr>
      in case RedisManager_reset md5 (redis_manager s1) cache_key w of
           (Inl e, w') \<Rightarrow> (Inl e, (s1, w'))
         | (Inr b, w') \<Rightarrow> (Inr b, (s1, w')))"

section \<open>Example configurations\<close>

text \<open>
  The values of MD5 (as \<^verbatim>\<open>_get_hash\<close> returns them) on the labels that the examples
  below hash; the examples hash no other string.
\<close>

definition md5_sample :: "string \<Rightarrow> int" where
  "md5_sample s =
     (if s = ''s1_0'' then 252414911337710178552636537733865305187
      else if s = ''s2_0'' then 304521342054074696926955135328644364988
      else if s = ''visits:page-A'' then 250956023577100943970037108560359257862
      else if s = ''visits:page-C'' then 287467546172279826736634119676677519464
      else if s = ''fallback_s1'' then 86899235256069193381200397623889829400
      else if s = ''fallback_s2'' then 290546424772610390900804048389350076327
      else 0)"

text \<open>
  The ring that \<^verbatim>\<open>ConsistentHash(["s1", "s2"], 1)\<close> builds under MD5.
\<close>

definition two_shards :: ConsistentHash where
  "two_shards = \<lparr>virtual_nodes = 1,
     hash_ring = [(252414911337710178552636537733865305187, ''s1''),
                  (304521342054074696926955135328644364988, ''s2'')],
     sorted_keys = [252414911337710178552636537733865305187,
                    304521342054074696926955135328644364988],
     nodes = {''s1'', ''s2''}\<rparr>"

text \<open>The default settings with one virtual node per shard.\<close>

definition cfg1 :: Settings where
  "cfg1 = settings\<lparr>VIRTUAL_NODES := 1\<rparr>"

text \<open>Empty Redis servers and no failing call.\<close>

definition world0 :: redis_world where
  "world0 = \<lparr>servers = (\<lambda>client. Map.empty), faults = []\<rparr>"

text \<open>
  The manager and the service that \<^verbatim>\<open>RedisManager()\<close> and \<^verbatim>\<open>VisitCounterService()\<close> build
  for the shards \<^verbatim>\<open>s1\<close> and \<^verbatim>\<open>s2\<close> at time 0, and three states of that service: with a
  cache entry for \<^verbatim>\<open>page-A\<close>, with two buffered visits of \<^verbatim>\<open>page-C\<close>, and with both a
  cache entry and two buffered visits for \<^verbatim>\<open>page-A\<close>.
\<close>

definition manager0 :: RedisManager where
  "manager0 = \<lparr>redis_nodes = [''s1'', ''s2''], consistent_hash = two_shards,
       node_health = [(''s1'', True), (''s2'', True)],
       redis_clients = [(''s1'', ''s1''), (''s2'', ''s2'')]\<rparr>"

definition service0 :: VisitCounterService where
  "service0 = \<lparr>redis_manager = manager0, cache = [], write_buffer = [], last_write_time = 0,
      metrics = \<lparr>visits = 0, status = ACTIVE, cache_size = 0, last_update = None\<rparr>\<rparr>"

definition service_cached :: VisitCounterService where
  "service_cached = service0\<lparr>cache := [(''visits:page-A'', \<lparr>entry_value = 3, timestamp = 0\<rparr>)]\<rparr>"

definition service_buffered :: VisitCounterService where
  "service_buffered = service0\<lparr>write_buffer := [(''page-C'', 2)]\<rparr>"

definition service_pending :: VisitCounterService where
  "service_pending = service0\<lparr>cache := [(''visits:page-A'', \<lparr>entry_value = 3, timestamp = 0\<rparr>)],
                               write_buffer := [(''page-A'', 2)]\<rparr>"

text \<open>
  The round trip of the specification on \<^verbatim>\<open>page-A\<close>: reset, \<open>n\<close> increments, a flush, then
  a get. The result is what the get returns, with the value the shard \<^verbatim>\<open>s1\<close> holds at the
  end.
\<close>

definition round_trip :: "nat \<Rightarrow> (exn + int \<times> string) \<times> int option" where
  "round_trip n =
     (let (r1, (s1, w1)) = reset_counter md5_sample ''page-A'' (service0, world0);
          s2 = (increment_visit ''page-A'' ^^ n) s1;
          (s3, w3) = flush_write_buffer cfg1 md5_sample 0 (s2, w1);
          (r4, (s4, w4)) = get_visit_count cfg1 md5_sample 0 ''page-A'' (s3, w3)
      in (r4, servers w4 ''s1'' ''visits:page-A''))"

text \<open>The manager of the two shards when the health probe has marked \<^verbatim>\<open>s1\<close> unhealthy.\<close>

definition manager_s1_down :: RedisManager where
  "manager_s1_down = manager0\<lparr>node_health := [(''s1'', False), (''s2'', True)]\<rparr>"

text \<open>Redis servers whose next three calls raise (one whole retry loop).\<close>

definition world_down :: redis_world where
  "world_down = world0\<lparr>faults := [True, True, True]\<rparr>"

section \<open>Quantities and runs that the claims speak of\<close>

text \<open>
  The value a server holds for a key (0 when it holds none), and the count the system
  accounts for a page: what is buffered for it plus what the shard that its storage key
  routes to holds for it.
\<close>

definition stored :: "redis_world \<Rightarrow> string \<Rightarrow> string \<Rightarrow> int" where
  "stored w client key = (case servers w client key of None \<Rightarrow> 0 | Some v \<Rightarrow> v)"

definition accounted :: "(string \<Rightarrow> int) \<Rightarrow> string \<Rightarrow> system \<Rightarrow> int" where
  "accounted md5 page_id sw =
     (case sw of (s, w) \<Rightarrow>
        get0 (write_buffer s) page_id +
        (case get_connection md5 (redis_manager s) (''visits:'' @ page_id) of
           Inl e \<Rightarrow> 0
         | Inr (client, node) \<Rightarrow> stored w client (''visits:'' @ page_id)))"

text \<open>
  A sequence of ring operations, run from left to right. It stops at the first
  \<^verbatim>\<open>remove_node\<close> that raises; \<open>None\<close> is an \<^verbatim>\<open>add_node\<close> that never returns.
\<close>

datatype ring_op = Add string | Remove string

fun apply_ops ::
  "(string \<Rightarrow> int) \<Rightarrow> ConsistentHash \<Rightarrow> ring_op list \<Rightarrow> (exn + ConsistentHash) option" where
  "apply_ops md5 ch [] = Some (Inr ch)"
| "apply_ops md5 ch (Add node # ops) =
     (case add_node md5 ch node of None \<Rightarrow> None | Some ch' \<Rightarrow> apply_ops md5 ch' ops)"
| "apply_ops md5 ch (Remove node # ops) =
     (case remove_node md5 ch node of Inl e \<Rightarrow> Some (Inl e) | Inr ch' \<Rightarrow> apply_ops md5 ch' ops)"

definition empty_ring :: "int \<Rightarrow> ConsistentHash" where
  "empty_ring v = \<lparr>virtual_nodes = v, hash_ring = [], sorted_keys = [], nodes = {}\<rparr>"







text \<open>
  The value of a string of decimal digits; it serves to show that a label determines its
  shard and its index.
\<close>

fun digits_value :: "string \<Rightarrow> nat" where
  "digits_value s = foldl (\<lambda>acc c. 10 * acc + (of_char c - 48)) 0 s"






text \<open>
  The write buffer is a dictionary of non-negative counts; every operation of the service
  keeps it so.
\<close>

definition buffer_ok :: "(string \<times> int) list \<Rightarrow> bool" where
  "buffer_ok b \<longleftrightarrow> distinct (map fst b) \<and> (\<forall>(k, v)\<in>set b. 0 \<le> v)"

section \<open>Ring lookup\<close>

text \<open>
  The binary search returns the number of elements that are at most \<open>x\<close>: everything
  before the returned index is \<open>\<le> x\<close>, everything from it on is \<open>> x\<close>.
\<close>

lemma bisect_loop_bounds:
  "sorted a \<Longrightarrow> lo \<le> hi \<Longrightarrow> hi \<le> length a \<Longrightarrow>
   (\<forall>i<lo. a ! i \<le> x) \<Longrightarrow> (\<forall>i. hi \<le> i \<and> i < length a \<longrightarrow> x < a ! i) \<Longrightarrow>
   lo \<le> bisect_loop a x lo hi \<and> bisect_loop a x lo hi \<le> hi \<and>
   (\<forall>i<bisect_loop a x lo hi. a ! i \<le> x) \<and>
   (\<forall>i. bisect_loop a x lo hi \<le> i \<and> i < length a \<longrightarrow> x < a ! i)"
proof (induction a x lo hi rule: bisect_loop.induct)
  case (1 a x lo hi)
  show ?case
  proof (cases "lo < hi")
    case False
    with "1.prems" show ?thesis by (simp add: bisect_loop.simps)
  next
    case True
    define mid where "mid = (lo + hi) div 2"
    have mid: "lo \<le> mid" "mid < hi" using True by (auto simp: mid_def)
    show ?thesis
    proof (cases "x < a ! mid")
      case lt: True
      have up: "\<forall>i. mid \<le> i \<and> i < length a \<longrightarrow> x < a ! i"
      proof (intro allI impI)
        fix i assume "mid \<le> i \<and> i < length a"
        then have "a ! mid \<le> a ! i" using "1.prems"(1) by (simp add: sorted_nth_mono)
        with lt show "x < a ! i" by simp
      qed
      have eq: "bisect_loop a x lo hi = bisect_loop a x lo mid"
        using True lt by (subst bisect_loop.simps) (simp add: mid_def)
      have "lo \<le> bisect_loop a x lo mid \<and> bisect_loop a x lo mid \<le> mid \<and>
        (\<forall>i<bisect_loop a x lo mid. a ! i \<le> x) \<and>
        (\<forall>i. bisect_loop a x lo mid \<le> i \<and> i < length a \<longrightarrow> x < a ! i)"
        using "1.IH"(1)[OF True mid_def lt] "1.prems" mid up by simp
      with eq mid show ?thesis by auto
    next
      case ge: False
      have low: "\<forall>i<mid + 1. a ! i \<le> x"
      proof (intro allI impI)
        fix i assume "i < mid + 1"
        then have "a ! i \<le> a ! mid" using "1.prems"(1,3) mid by (simp add: sorted_nth_mono)
        with ge show "a ! i \<le> x" by simp
      qed
      have eq: "bisect_loop a x lo hi = bisect_loop a x (mid + 1) hi"
        using True ge by (subst bisect_loop.simps) (simp add: mid_def)
      have "mid + 1 \<le> bisect_loop a x (mid + 1) hi \<and> bisect_loop a x (mid + 1) hi \<le> hi \<and>
        (\<forall>i<bisect_loop a x (mid + 1) hi. a ! i \<le> x) \<and>
        (\<forall>i. bisect_loop a x (mid + 1) hi \<le> i \<and> i < length a \<longrightarrow> x < a ! i)"
        using "1.IH"(2)[OF True mid_def ge] "1.prems" mid low by simp
      with eq mid show ?thesis by auto
    qed
  qed
qed

lemma bisect_spec:
  assumes "sorted a"
  shows "bisect a x \<le> length a" "\<forall>i<bisect a x. a ! i \<le> x"
    "\<forall>i. bisect a x \<le> i \<and> i < length a \<longrightarrow> x < a ! i"
  using bisect_loop_bounds[of a 0 "length a" x] assms by (auto simp: bisect_def)

lemma find_first_greater:
  assumes "idx \<le> length a" "\<forall>i<idx. a ! i \<le> (x::int)" "\<forall>i. idx \<le> i \<and> i < length a \<longrightarrow> x < a ! i"
  shows "find (\<lambda>k. x < k) a = (if idx = length a then None else Some (a ! idx))"
  using assms
proof (induction a arbitrary: idx)
  case Nil
  then show ?case by simp
next
  case (Cons y ys)
  show ?case
  proof (cases idx)
    case 0
    with Cons.prems show ?thesis by auto
  next
    case (Suc j)
    have "y \<le> x" using Cons.prems(2) Suc by auto
    moreover have "find (\<lambda>k. x < k) ys = (if j = length ys then None else Some (ys ! j))"
    proof (rule Cons.IH)
      show "j \<le> length ys" using Cons.prems(1) Suc by simp
      show "\<forall>i<j. ys ! i \<le> x" using Cons.prems(2) Suc by auto
      show "\<forall>i. j \<le> i \<and> i < length ys \<longrightarrow> x < ys ! i" using Cons.prems(3) Suc by auto
    qed
    ultimately show ?thesis using Suc by simp
  qed
qed

lemma get_node_refines:
  assumes "ring_ok ch"
  shows "get_node md5 ch key = route_spec md5 ch key"
proof (cases "hash_ring ch = []")
  case True
  then show ?thesis by (simp add: get_node_def route_spec_def)
next
  case False
  let ?ks = "sorted_keys ch"
  have ks: "?ks = sort (map fst (hash_ring ch))" using assms by (simp add: ring_ok_def)
  have srt: "sorted ?ks" by (simp add: ks)
  have len: "length ?ks = length (hash_ring ch)" by (simp add: ks)
  have ne: "0 < length ?ks" using False len by simp
  note b = bisect_spec[OF srt, of "md5 key"]
  have f: "find (\<lambda>k. md5 key < k) ?ks =
      (if bisect ?ks (md5 key) = length ?ks then None else Some (?ks ! bisect ?ks (md5 key)))"
    by (rule find_first_greater[OF b])
  show ?thesis
    using False f b(1) ne
    by (auto simp: get_node_def route_spec_def Let_def list_index_def ks[symmetric])
qed

lemma find_sorted_least:
  "sorted xs \<Longrightarrow> find P xs = Some k \<Longrightarrow> k \<in> set xs \<and> P k \<and> (\<forall>y\<in>set xs. P y \<longrightarrow> k \<le> y)"
  by (induction xs) (auto split: if_splits)

lemma getitem_present:
  "k \<in> fst ` set d \<Longrightarrow> \<exists>v. getitem d k = Inr v \<and> map_of d k = Some v"
  by (cases "map_of d k") (auto simp: getitem_def map_of_eq_None_iff)

text \<open>
  Claim C6. On a ring whose sorted key list is the sorted list of the dictionary's keys,
  \<^verbatim>\<open>get_node\<close> is the lookup of the specification: on an empty ring it raises
  \<open>EmptyRing\<close>; otherwise it returns the shard stored at the least stored hash that is
  strictly greater than the key's hash, and the shard stored at index 0 of the sorted
  list when no stored hash is strictly greater. It never fails with a missing key or
  index on such a ring.
\<close>

theorem get_node_first_greater:
  assumes "ring_ok ch"
  shows "get_node md5 ch key = route_spec md5 ch key \<and>
    (hash_ring ch = [] \<longrightarrow> get_node md5 ch key = Inl EmptyRing) \<and>
    (hash_ring ch \<noteq> [] \<longrightarrow>
       (\<exists>k n. get_node md5 ch key = Inr n \<and> map_of (hash_ring ch) k = Some n \<and>
          (if \<exists>k'\<in>set (sorted_keys ch). md5 key < k'
           then md5 key < k \<and> (\<forall>k'\<in>set (sorted_keys ch). md5 key < k' \<longrightarrow> k \<le> k')
           else k = sorted_keys ch ! 0)))"
proof -
  let ?ks = "sorted_keys ch"
  have ks: "?ks = sort (map fst (hash_ring ch))" using assms by (simp add: ring_ok_def)
  have srt: "sorted ?ks" by (simp add: ks)
  have set_ks: "set ?ks = fst ` set (hash_ring ch)" by (simp add: ks)
  have ref: "get_node md5 ch key = route_spec md5 ch key"
    by (rule get_node_refines[OF assms])
  have empty: "get_node md5 ch key = Inl EmptyRing" if "hash_ring ch = []"
    using that by (simp add: get_node_def)
  have full: "\<exists>k n. get_node md5 ch key = Inr n \<and> map_of (hash_ring ch) k = Some n \<and>
          (if \<exists>k'\<in>set ?ks. md5 key < k'
           then md5 key < k \<and> (\<forall>k'\<in>set ?ks. md5 key < k' \<longrightarrow> k \<le> k')
           else k = ?ks ! 0)" if ne: "hash_ring ch \<noteq> []"
  proof (cases "find (\<lambda>k. md5 key < k) ?ks")
    case None
    have none: "\<not> (\<exists>k'\<in>set ?ks. md5 key < k')"
      using None unfolding find_None_iff by blast
    have "0 < length ?ks" using ne by (simp add: ks)
    then have "?ks ! 0 \<in> set ?ks" by (rule nth_mem)
    then have "?ks ! 0 \<in> fst ` set (hash_ring ch)" by (simp only: set_ks)
    from getitem_present[OF this]
    obtain n where n: "getitem (hash_ring ch) (?ks ! 0) = Inr n" "map_of (hash_ring ch) (?ks ! 0) = Some n"
      by blast
    have "route_spec md5 ch key = getitem (hash_ring ch) (?ks ! 0)"
      using ne None by (simp add: route_spec_def ks[symmetric])
    with ref n have g: "get_node md5 ch key = Inr n" by simp
    show ?thesis
      using g n(2) none by (intro exI[of _ "?ks ! 0"] exI[of _ n]) simp
  next
    case (Some k)
    from find_sorted_least[OF srt Some]
    have k: "k \<in> set ?ks" "md5 key < k" "\<forall>y\<in>set ?ks. md5 key < y \<longrightarrow> k \<le> y" by blast+
    have some: "\<exists>k'\<in>set ?ks. md5 key < k'" using k(1,2) by blast
    have "k \<in> fst ` set (hash_ring ch)" using k(1) by (simp only: set_ks)
    from getitem_present[OF this]
    obtain n where n: "getitem (hash_ring ch) k = Inr n" "map_of (hash_ring ch) k = Some n"
      by blast
    have "route_spec md5 ch key = getitem (hash_ring ch) k"
      using ne Some by (simp add: route_spec_def ks[symmetric])
    with ref n have g: "get_node md5 ch key = Inr n" by simp
    show ?thesis
      using g n(2) some k(2,3) by (intro exI[of _ k] exI[of _ n]) simp
  qed
  from ref empty full show ?thesis by blast
qed

theorem get_node_first_greater_witness:
  "ring_ok two_shards \<and> hash_ring two_shards \<noteq> [] \<and>
   (\<exists>k'\<in>set (sorted_keys two_shards). md5_sample ''visits:page-A'' < k') \<and>
   get_node md5_sample two_shards ''visits:page-A'' = route_spec md5_sample two_shards ''visits:page-A'' \<and>
   route_spec md5_sample two_shards ''visits:page-A'' = Inr ''s1''"
proof -
  have ok: "ring_ok two_shards" by (simp add: ring_ok_def two_shards_def)
  have ne: "hash_ring two_shards \<noteq> []" by (simp add: two_shards_def)
  have gt: "\<exists>k'\<in>set (sorted_keys two_shards). md5_sample ''visits:page-A'' < k'"
    by (simp add: two_shards_def md5_sample_def)
  have r: "route_spec md5_sample two_shards ''visits:page-A'' = Inr ''s1''"
    by (simp add: route_spec_def two_shards_def md5_sample_def getitem_def)
  have "get_node md5_sample two_shards ''visits:page-A'' = route_spec md5_sample two_shards ''visits:page-A''"
    using get_node_first_greater[OF ok, of md5_sample "''visits:page-A''"] by (rule conjunct1)
  with ok ne gt r show ?thesis by blast
qed

section \<open>The example configurations are what the constructors build\<close>




lemma conn0: "get_connection md5_sample manager0 ''visits:page-A'' = Inr (''s1'', ''s1'')"
  by (simp add: get_connection_def get_node_def manager0_def two_shards_def md5_sample_def
      bisect_def bisect_loop.simps list_index_def getitem_def)

section \<open>Shard manager: reading a missing key\<close>

lemma raises_replicate:
  "raises (w\<lparr>faults := replicate (Suc j) True @ fs\<rparr>)"
  by (simp add: raises_def)

lemma get_attempts_after_faults:
  assumes conn: "get_connection md5 rm key = Inr (client, node)"
    and ok: "\<not> raises (w\<lparr>faults := fs\<rparr>)"
  shows "faults w = replicate j True @ fs \<Longrightarrow> j < n \<Longrightarrow>
     get_attempts md5 rm key n w =
       (Inr (Some (case servers w client key of None \<Rightarrow> 0 | Some v \<Rightarrow> v, node)),
        w\<lparr>faults := tl fs\<rparr>)"
proof (induction j arbitrary: n w)
  case 0
  then obtain m where n: "n = Suc m" by (cases n) auto
  have "\<not> raises w" using ok 0 by (simp add: raises_def)
  then show ?case using conn 0 by (simp add: n client_get_def)
next
  case (Suc j)
  then obtain m where n: "n = Suc m" and m: "j < m" by (cases n) auto
  have r: "raises w" using Suc.prems(1) by (simp add: raises_def)
  let ?w = "w\<lparr>faults := tl (faults w)\<rparr>"
  have tl: "faults ?w = replicate j True @ fs" using Suc.prems(1) by simp
  have "get_attempts md5 rm key m ?w =
       (Inr (Some (case servers ?w client key of None \<Rightarrow> 0 | Some v \<Rightarrow> v, node)),
        ?w\<lparr>faults := tl fs\<rparr>)"
    by (rule Suc.IH[OF tl m])
  then show ?case using conn r m by (simp add: n client_get_def)
qed

text \<open>
  Claim C8. When the routed shard answers (after \<open>j\<close> failed attempts, \<open>j\<close> below the number
  of retry attempts, the next call does not raise) and holds no value for the key,
  \<^verbatim>\<open>RedisManager.get\<close> returns the value 0 paired with the shard, not an error.
\<close>

theorem RedisManager_get_missing_key:
  assumes "get_connection md5 rm key = Inr (client, node)"
    and "faults w = replicate j True @ fs"
    and "\<not> raises (w\<lparr>faults := fs\<rparr>)"
    and "int j < REDIS_RETRY_ATTEMPTS cfg"
    and "servers w client key = None"
  shows "fst (RedisManager_get cfg md5 rm key w) = Inr (Some (0, node))"
proof -
  have "j < nat (REDIS_RETRY_ATTEMPTS cfg)" using assms(4) by simp
  from get_attempts_after_faults[OF assms(1) assms(3) assms(2) this]
  show ?thesis using assms(5) by (simp add: RedisManager_get_def)
qed

theorem RedisManager_get_missing_key_witness:
  "get_connection md5_sample manager0 ''visits:page-A'' = Inr (''s1'', ''s1'') \<and>
   faults (world0\<lparr>faults := [True, True]\<rparr>) = replicate 2 True @ [] \<and>
   \<not> raises (world0\<lparr>faults := []\<rparr>) \<and>
   int 2 < REDIS_RETRY_ATTEMPTS settings \<and>
   servers (world0\<lparr>faults := [True, True]\<rparr>) ''s1'' ''visits:page-A'' = None \<and>
   fst (RedisManager_get settings md5_sample manager0 ''visits:page-A''
          (world0\<lparr>faults := [True, True]\<rparr>)) = Inr (Some (0, ''s1''))"
proof -
  have a: "faults (world0\<lparr>faults := [True, True]\<rparr>) = replicate 2 True @ []"
    by (simp add: numeral_2_eq_2)
  have b: "\<not> raises (world0\<lparr>faults := [True, True]\<rparr>\<lparr>faults := []\<rparr>)" by (simp add: raises_def)
  have b': "\<not> raises (world0\<lparr>faults := []\<rparr>)" by (simp add: raises_def)
  have c: "int 2 < REDIS_RETRY_ATTEMPTS settings" by (simp add: settings_def)
  have d: "servers (world0\<lparr>faults := [True, True]\<rparr>) ''s1'' ''visits:page-A'' = None"
    by (simp add: world0_def)
  from RedisManager_get_missing_key[OF conn0 a b c d] conn0 a b' c d
  show ?thesis by blast
qed

section \<open>The public get\<close>

text \<open>
  \<^verbatim>\<open>CounterMetrics\<close> declares neither \<^verbatim>\<open>cache_hits\<close> nor \<^verbatim>\<open>cache_misses\<close>, so the
  statements \<^verbatim>\<open>self.metrics.cache_hits += 1\<close> (line 140) and
  \<^verbatim>\<open>self.metrics.cache_misses += 1\<close> (line 143) raise \<^verbatim>\<open>AttributeError\<close>. One of the two is
  on every path through the \<^verbatim>\<open>try\<close> block, before any change of state, so the block always
  raises and \<^verbatim>\<open>get_visit_count\<close> always answers from the handler.
\<close>

lemma metrics_incr_undeclared [simp]:
  "metrics_incr m ''cache_hits'' = Inl AttributeError"
  "metrics_incr m ''cache_misses'' = Inl AttributeError"
  by (simp_all add: metrics_incr_def)

lemma get_visit_count_try_raises:
  "get_visit_count_try cfg md5 now page_id (s, w) = (Inl AttributeError, (s, w))"
  by (simp add: get_visit_count_try_def Let_def split: option.split)

lemma get_visit_count_degrades:
  "get_visit_count cfg md5 now page_id (s, w) =
     (Inr (get0 (write_buffer s) page_id, ''write_buffer''), (s, w))"
  by (simp add: get_visit_count_def get_visit_count_try_raises)

text \<open>
  Claim C9. \<^verbatim>\<open>get_visit_count\<close> never propagates an exception: it always returns a pair, and
  whenever its \<^verbatim>\<open>try\<close> block raises, in whatever state, it returns the value buffered for
  the key in that state (0 if none) with the source tag \<^verbatim>\<open>write_buffer\<close>.
\<close>

theorem get_visit_count_total:
  "(\<exists>v src. fst (get_visit_count cfg md5 now page_id sw) = Inr (v, src)) \<and>
   (\<forall>e s' w'. get_visit_count_try cfg md5 now page_id sw = (Inl e, (s', w')) \<longrightarrow>
      get_visit_count cfg md5 now page_id sw =
        (Inr (get0 (write_buffer s') page_id, ''write_buffer''), (s', w')))"
  by (cases "get_visit_count_try cfg md5 now page_id sw" rule: prod_cases3)
     (auto simp: get_visit_count_def split: sum.splits)

theorem get_visit_count_total_witness:
  "get_visit_count_try settings md5_sample 0 ''page-C'' (service_buffered, world0) =
     (Inl AttributeError, (service_buffered, world0)) \<and>
   get_visit_count settings md5_sample 0 ''page-C'' (service_buffered, world0) =
     (Inr (2, ''write_buffer''), (service_buffered, world0))"
proof -
  have t: "get_visit_count_try settings md5_sample 0 ''page-C'' (service_buffered, world0) =
     (Inl AttributeError, (service_buffered, world0))"
    by (rule get_visit_count_try_raises)
  have "get0 (write_buffer service_buffered) ''page-C'' = 2"
    by (simp add: service_buffered_def get0_def)
  with t get_visit_count_total[of settings md5_sample 0 "''page-C''" "(service_buffered, world0)"]
  show ?thesis by simp
qed

lemma increments_buffer:
  "write_buffer s = [] \<Longrightarrow> cache s = [] \<Longrightarrow>
   (increment_visit page_id ^^ Suc n) s = s\<lparr>write_buffer := [(page_id, int (Suc n))], cache := []\<rparr>"
proof (induction n)
  case 0
  then show ?case by (simp add: increment_visit_def add_count_def get0_def)
next
  case (Suc n)
  have "(increment_visit page_id ^^ Suc (Suc n)) s = increment_visit page_id ((increment_visit page_id ^^ Suc n) s)"
    by simp
  also have "\<dots> = increment_visit page_id (s\<lparr>write_buffer := [(page_id, int (Suc n))], cache := []\<rparr>)"
    using Suc by simp
  also have "\<dots> = s\<lparr>write_buffer := [(page_id, int (Suc (Suc n)))], cache := []\<rparr>"
    by (simp add: increment_visit_def add_count_def get0_def)
  finally show ?case .
qed

text \<open>
  Claim C2, evaluated on the code. The cache holds a fresh entry with value 3 for
  \<^verbatim>\<open>visits:page-A\<close> (age 1 second, TTL 5 seconds), and \<^verbatim>\<open>get_visit_count\<close> returns 0 with the
  source tag \<^verbatim>\<open>write_buffer\<close>, not 3 with \<^verbatim>\<open>in_memory\<close>: the hit counter of line 140 raises
  before the \<^verbatim>\<open>return\<close> of line 141. And after three increments of \<^verbatim>\<open>page-A\<close> on the new
  service, a get followed by a second get at the same time returns 3 with the source tag
  \<^verbatim>\<open>write_buffer\<close> again: the first get has stored nothing in the cache.
\<close>

theorem get_visit_count_ignores_fresh_cache:
  "map_of (cache service_cached) (''visits:'' @ ''page-A'') = Some \<lparr>entry_value = 3, timestamp = 0\<rparr> \<and>
   (1::real) - 0 < real_of_int (CACHE_TTL_SECONDS settings) \<and>
   fst (get_visit_count settings md5_sample 1 ''page-A'' (service_cached, world0)) =
     Inr (0, ''write_buffer'') \<and>
   fst (get_visit_count settings md5_sample 0 ''page-A''
          (snd (get_visit_count settings md5_sample 0 ''page-A''
                  ((increment_visit ''page-A'' ^^ 3) service0, world0)))) =
     Inr (3, ''write_buffer'')"
proof -
  have "get0 (write_buffer service_cached) ''page-A'' = 0"
    by (simp add: service_cached_def service0_def get0_def)
  moreover have "(increment_visit ''page-A'' ^^ 3) service0 =
      service0\<lparr>write_buffer := [(''page-A'', 3)]\<rparr>"
    unfolding numeral_3_eq_3 by (subst increments_buffer) (simp_all add: service0_def)
  moreover have "get0 (write_buffer (service0\<lparr>write_buffer := [(''page-A'', 3)]\<rparr>)) ''page-A'' = 3"
    by (simp add: get0_def)
  ultimately show ?thesis
    by (simp add: get_visit_count_degrades service_cached_def settings_def)
qed

section \<open>The round trip\<close>

lemma reset0:
  "reset_counter md5_sample ''page-A'' (service0, world0) = (Inr False, (service0, world0))"
  using conn0
  by (simp add: reset_counter_def service0_def RedisManager_reset_def client_delete_def
      raises_def world0_def fun_eq_iff)

lemma incr0:
  "0 < n \<Longrightarrow> RedisManager_increment cfg1 md5_sample manager0 ''visits:page-A'' n world0 =
     (Inr (Some n), world0\<lparr>servers := (servers world0)(''s1'' := [''visits:page-A'' \<mapsto> n])\<rparr>)"
  using conn0
  by (simp add: RedisManager_increment_def cfg1_def settings_def numeral_3_eq_3
      client_incr_def raises_def world0_def)

lemma round_trip_value:
  "round_trip n = (Inr (0, ''write_buffer''), if n = 0 then None else Some (int n))"
proof (cases n)
  case 0
  have f0: "flush_write_buffer cfg1 md5_sample 0 (service0, world0) = (service0, world0)"
    by (simp add: flush_write_buffer_def service0_def)
  have "get0 (write_buffer service0) ''page-A'' = 0" by (simp add: get0_def service0_def)
  moreover have "servers world0 ''s1'' ''visits:page-A'' = None" by (simp add: world0_def)
  ultimately show ?thesis
    by (simp add: 0 round_trip_def reset0 f0 get_visit_count_degrades)
next
  case (Suc m)
  have b: "(increment_visit ''page-A'' ^^ n) service0 = service0\<lparr>write_buffer := [(''page-A'', int n)]\<rparr>"
    unfolding Suc by (subst increments_buffer) (simp_all add: service0_def)
  have pos: "0 < int n" using Suc by simp
  have f: "flush_write_buffer cfg1 md5_sample 0 (service0\<lparr>write_buffer := [(''page-A'', int n)]\<rparr>, world0) =
       (service0, world0\<lparr>servers := (servers world0)(''s1'' := [''visits:page-A'' \<mapsto> int n])\<rparr>)"
    using pos incr0[OF pos]
    by (simp add: flush_write_buffer_def flush_item_def service0_def)
  have "get0 (write_buffer service0) ''page-A'' = 0" by (simp add: get0_def service0_def)
  moreover have "n \<noteq> 0" using Suc by simp
  ultimately show ?thesis
    by (simp add: round_trip_def reset0 b f get_visit_count_degrades)
qed

text \<open>
  Claim C1, evaluated on the code. After a reset, three increments of \<^verbatim>\<open>page-A\<close> and a
  flush, the shard holds 3 and \<^verbatim>\<open>get_visit_count\<close> returns 0 with the source tag
  \<^verbatim>\<open>write_buffer\<close>: the miss counter of line 143 raises, the handler reads the buffer, and
  the flush has emptied the buffer.
\<close>

theorem round_trip_three_returns_zero:
  "round_trip 3 = (Inr (0, ''write_buffer''), Some 3)"
  by (simp add: round_trip_value)

text \<open>
  The read-through itself (lines 145 to 157), run after the same flush, does return the
  count: the round trip fails only because \<^verbatim>\<open>get_visit_count\<close> never reaches these lines.
\<close>

lemma read_through_round_trip:
  "fst (read_through cfg1 md5_sample 0 ''page-A''
         (flush_write_buffer cfg1 md5_sample 0
            ((increment_visit ''page-A'' ^^ n) service0, world0))) = Inr (int n, ''redis_s1'')"
proof (cases n)
  case 0
  show ?thesis using conn0
    by (simp add: 0 read_through_def flush_write_buffer_def service0_def
        RedisManager_get_def cfg1_def settings_def numeral_3_eq_3 client_get_def raises_def world0_def)
next
  case (Suc m)
  have b: "(increment_visit ''page-A'' ^^ n) service0 = service0\<lparr>write_buffer := [(''page-A'', int n)]\<rparr>"
    unfolding Suc by (subst increments_buffer) (simp_all add: service0_def)
  have pos: "0 < int n" using Suc by simp
  have f: "flush_write_buffer cfg1 md5_sample 0 (service0\<lparr>write_buffer := [(''page-A'', int n)]\<rparr>, world0) =
       (service0, world0\<lparr>servers := (servers world0)(''s1'' := [''visits:page-A'' \<mapsto> int n])\<rparr>)"
    using pos incr0[OF pos]
    by (simp add: flush_write_buffer_def flush_item_def service0_def)
  show ?thesis using conn0
    by (simp add: b f) (simp add: read_through_def flush_write_buffer_def service0_def Let_def
        RedisManager_get_def cfg1_def settings_def numeral_3_eq_3 client_get_def raises_def world0_def)
qed

section \<open>Reset\<close>

lemma RedisManager_reset_failure:
  "RedisManager_reset md5 rm key w = (Inl e, w') \<Longrightarrow> servers w' = servers w"
  by (auto simp: RedisManager_reset_def client_delete_def split: sum.splits prod.splits if_splits)

text \<open>
  Claim C10. \<^verbatim>\<open>reset_counter\<close> removes the key's cache entry and its buffered count before
  it contacts the shard: when \<^verbatim>\<open>RedisManager.reset\<close> raises, \<^verbatim>\<open>reset_counter\<close> raises the
  same exception, the cache entry and the buffered count stay removed, and the servers
  are unchanged, so the pending increments are lost.
\<close>

theorem reset_counter_not_atomic:
  assumes "fst (RedisManager_reset md5 (redis_manager s) (''visits:'' @ page_id) w) = Inl e"
  shows "\<exists>s' w'. reset_counter md5 page_id (s, w) = (Inl e, (s', w')) \<and>
           s' = s\<lparr>cache := AList.delete (''visits:'' @ page_id) (cache s),
                  write_buffer := AList.delete page_id (write_buffer s)\<rparr> \<and>
           map_of (cache s') (''visits:'' @ page_id) = None \<and>
           map_of (write_buffer s') page_id = None \<and>
           servers w' = servers w"
proof -
  obtain w' where r: "RedisManager_reset md5 (redis_manager s) (''visits:'' @ page_id) w = (Inl e, w')"
    using assms by (cases "RedisManager_reset md5 (redis_manager s) (''visits:'' @ page_id) w") auto
  have "servers w' = servers w" by (rule RedisManager_reset_failure[OF r])
  then show ?thesis using r by (simp add: reset_counter_def Let_def AList.delete_conv')
qed

theorem reset_counter_not_atomic_witness:
  "fst (RedisManager_reset md5_sample (redis_manager service_pending) (''visits:'' @ ''page-A'')
          (world0\<lparr>faults := [True]\<rparr>)) = Inl Failed \<and>
   fst (reset_counter md5_sample ''page-A'' (service_pending, world0\<lparr>faults := [True]\<rparr>)) = Inl Failed \<and>
   write_buffer (fst (snd (reset_counter md5_sample ''page-A''
                            (service_pending, world0\<lparr>faults := [True]\<rparr>)))) = [] \<and>
   cache (fst (snd (reset_counter md5_sample ''page-A''
                            (service_pending, world0\<lparr>faults := [True]\<rparr>)))) = []"
proof -
  have m: "redis_manager service_pending = manager0"
    by (simp add: service_pending_def service0_def)
  have f: "fst (RedisManager_reset md5_sample (redis_manager service_pending) (''visits:'' @ ''page-A'')
          (world0\<lparr>faults := [True]\<rparr>)) = Inl Failed"
    using conn0 by (simp add: m RedisManager_reset_def client_delete_def raises_def)
  from reset_counter_not_atomic[OF f]
  obtain s' w' where r: "reset_counter md5_sample ''page-A'' (service_pending, world0\<lparr>faults := [True]\<rparr>)
        = (Inl Failed, (s', w'))"
    and s': "s' = service_pending\<lparr>cache := AList.delete (''visits:'' @ ''page-A'') (cache service_pending),
                  write_buffer := AList.delete ''page-A'' (write_buffer service_pending)\<rparr>"
    by blast
  have "write_buffer s' = []" "cache s' = []"
    using s' by (simp_all add: service_pending_def service0_def AList.delete_eq)
  with f r show ?thesis by simp
qed

section \<open>Fallback routing\<close>

lemma get_node_in_ring:
  "get_node md5 ch key = Inr n \<Longrightarrow> n \<in> snd ` set (hash_ring ch)"
  by (auto simp: get_node_def getitem_def Let_def list_index_def
      split: if_splits sum.splits option.splits dest!: map_of_SomeD intro: rev_image_eqI)

lemma fallback_self_loop:
  "get_node md5 (consistent_hash rm) (''fallback_'' @ u) = Inr u \<Longrightarrow>
   getitem (node_health rm) u = Inr False \<Longrightarrow>
   fallback md5 rm u n = Inl NoHealthyNodes"
  by (induction n) simp_all

text \<open>
  What the fallback does when exactly one shard \<open>u\<close> is unhealthy: a key routed to another
  shard uses that shard; a key routed to \<open>u\<close> uses the shard \<open>f\<close> that
  \<^verbatim>\<open>"fallback_" + u\<close> routes to when \<open>f \<noteq> u\<close>, and fails when \<open>f = u\<close>, since every
  iteration of the loop then hashes the same label again.
\<close>

lemma get_connection_one_unhealthy:
  assumes route: "get_node md5 (consistent_hash rm) key = Inr node"
    and fb: "get_node md5 (consistent_hash rm) (''fallback_'' @ u) = Inr f"
    and ring: "snd ` set (hash_ring (consistent_hash rm)) \<subseteq> set (redis_nodes rm)"
    and down: "getitem (node_health rm) u = Inr False"
    and up: "\<forall>n\<in>set (redis_nodes rm). n \<noteq> u \<longrightarrow>
               getitem (node_health rm) n = Inr True \<and> getitem (redis_clients rm) n = Inr n"
  shows "get_connection md5 rm key =
           (if node \<noteq> u then Inr (node, node)
            else if f \<noteq> u then Inr (f, f)
            else Inl NoHealthyNodes)"
proof -
  have node: "node \<in> set (redis_nodes rm)" using get_node_in_ring[OF route] ring by blast
  have f: "f \<in> set (redis_nodes rm)" using get_node_in_ring[OF fb] ring by blast
  then obtain m where len: "length (redis_nodes rm) = Suc m" by (cases "redis_nodes rm") auto
  show ?thesis
  proof (cases "node = u")
    case False
    then show ?thesis using route up node by (simp add: get_connection_def)
  next
    case True
    show ?thesis
    proof (cases "f = u")
      case False
      then have "fallback md5 rm u (Suc m) = Inr f" using fb up f by simp
      then show ?thesis using True False route down up f by (simp add: get_connection_def len)
    next
      case eq: True
      have "fallback md5 rm u (Suc m) = Inl NoHealthyNodes"
        using fb down unfolding eq by (rule fallback_self_loop)
      then show ?thesis using True eq route down by (simp add: get_connection_def len)
    qed
  qed
qed

lemma fallback0: "get_node md5_sample two_shards ''fallback_s1'' = Inr ''s1''"
  by (simp add: get_node_def two_shards_def md5_sample_def
      bisect_def bisect_loop.simps list_index_def getitem_def)

lemma route0: "get_node md5_sample two_shards ''visits:page-A'' = Inr ''s1''"
  by (simp add: get_node_def two_shards_def md5_sample_def
      bisect_def bisect_loop.simps list_index_def getitem_def)

text \<open>
  Claim C5, evaluated on the code. Two shards under MD5 with one virtual node each,
  \<^verbatim>\<open>s1\<close> unhealthy and \<^verbatim>\<open>s2\<close> healthy: \<^verbatim>\<open>visits:page-A\<close> routes to \<^verbatim>\<open>s1\<close>, and so does
  \<^verbatim>\<open>fallback_s1\<close>, so both iterations of the fallback loop return \<^verbatim>\<open>s1\<close> and
  \<^verbatim>\<open>get_connection\<close> raises "No healthy Redis nodes available" although \<^verbatim>\<open>s2\<close> is
  healthy; \<^verbatim>\<open>RedisManager.get\<close> and \<^verbatim>\<open>RedisManager.increment\<close> fail with it.
\<close>

theorem fallback_misses_healthy_shard:
  "redis_nodes manager_s1_down = [''s1'', ''s2''] \<and>
   node_health manager_s1_down = [(''s1'', False), (''s2'', True)] \<and>
   get_connection md5_sample manager_s1_down ''visits:page-A'' = Inl NoHealthyNodes \<and>
   fst (RedisManager_get settings md5_sample manager_s1_down ''visits:page-A'' world0)
     = Inl NoHealthyNodes \<and>
   fst (RedisManager_increment settings md5_sample manager_s1_down ''visits:page-A'' 1 world0)
     = Inl NoHealthyNodes"
proof -
  have c: "get_connection md5_sample manager_s1_down ''visits:page-A'' = Inl NoHealthyNodes"
    using route0 fallback0
    by (simp add: get_connection_def manager_s1_down_def manager0_def getitem_def numeral_2_eq_2)
  then show ?thesis
    by (simp add: manager_s1_down_def manager0_def RedisManager_get_def
        RedisManager_increment_def settings_def numeral_3_eq_3)
qed

section \<open>Flush: restore on failure\<close>

lemma map_of_add_count:
  "map_of (add_count d k n) = (map_of d)(k \<mapsto> get0 d k + n)"
  by (auto simp: add_count_def Let_def get0_def AList.update_conv' fun_eq_iff split: option.splits)

lemma get0_add_count:
  "get0 (add_count d k n) k' = (if k' = k then get0 d k + n else get0 d k')"
  by (simp add: get0_def map_of_add_count)

lemma stored_faults [simp]: "stored (w\<lparr>faults := fs\<rparr>) = stored w"
  by (simp add: stored_def fun_eq_iff)

lemma client_incr_cases:
  "client_incr w client key amount =
     (if raises w then (Inl RedisError, w\<lparr>faults := tl (faults w)\<rparr>)
      else (Inr (stored w client key + amount),
            w\<lparr>servers := (servers w)(client := (servers w client)(key \<mapsto> stored w client key + amount)),
               faults := tl (faults w)\<rparr>))"
  by (simp add: client_incr_def stored_def Let_def)

lemma increment_attempts_outcome:
  "increment_attempts md5 rm key amount (Suc n) w = (r, w') \<Longrightarrow>
     (case r of
        Inl e \<Rightarrow> servers w' = servers w
      | Inr v \<Rightarrow> (\<exists>client node. get_connection md5 rm key = Inr (client, node) \<and>
                   (\<forall>c k. servers w' c k =
                      (if c = client \<and> k = key then Some (stored w client key + amount)
                       else servers w c k))))"
proof (induction n arbitrary: w)
  case 0
  then show ?case
    by (auto simp: client_incr_cases split: sum.splits prod.splits if_splits)
next
  case (Suc n)
  show ?case
  proof (cases "get_connection md5 rm key")
    case (Inl e)
    with Suc.prems show ?thesis by auto
  next
    case (Inr cn)
    obtain client node where cn: "cn = (client, node)" by (cases cn)
    show ?thesis
    proof (cases "raises w")
      case True
      let ?w = "w\<lparr>faults := tl (faults w)\<rparr>"
      have "increment_attempts md5 rm key amount (Suc n) ?w = (r, w')"
        using Suc.prems Inr cn True by (simp add: client_incr_cases)
      from Suc.IH[OF this] show ?thesis by (cases r) auto
    next
      case False
      with Suc.prems Inr cn show ?thesis
        by (auto simp: client_incr_cases)
    qed
  qed
qed

lemma flush_item_manager:
  "redis_manager (fst (flush_item cfg md5 item (s, w))) = redis_manager s"
  by (cases item) (simp add: flush_item_def split: prod.splits sum.splits)

lemma flush_item_restores:
  assumes "0 < count"
    and "RedisManager_increment cfg md5 (redis_manager s) (''visits:'' @ page_id) count w = (Inl e, w')"
  shows "flush_item cfg md5 (page_id, count) (s, w) =
           (s\<lparr>write_buffer := add_count (write_buffer s) page_id count\<rparr>, w')"
  using assms by (simp add: flush_item_def)

lemma flush_item_accounted:
  assumes retry: "1 \<le> REDIS_RETRY_ATTEMPTS cfg" and nonneg: "0 \<le> count"
  shows "accounted md5 K (flush_item cfg md5 (page_id, count) (s, w)) =
           accounted md5 K (s, w) + (if page_id = K then count else 0)"
proof (cases "0 < count")
  case False
  then have "count = 0" using nonneg by simp
  then show ?thesis by (simp add: flush_item_def)
next
  case True
  obtain n where n: "nat (REDIS_RETRY_ATTEMPTS cfg) = Suc n"
    using retry by (cases "nat (REDIS_RETRY_ATTEMPTS cfg)") auto
  obtain r w' where rw: "RedisManager_increment cfg md5 (redis_manager s) (''visits:'' @ page_id) count w = (r, w')"
    by (cases "RedisManager_increment cfg md5 (redis_manager s) (''visits:'' @ page_id) count w")
  then have att: "increment_attempts md5 (redis_manager s) (''visits:'' @ page_id) count (Suc n) w = (r, w')"
    by (simp add: RedisManager_increment_def n)
  note out = increment_attempts_outcome[OF att]
  show ?thesis
  proof (cases r)
    case (Inl e)
    then have sv: "servers w' = servers w" using out by simp
    have st: "stored w' = stored w" by (simp add: stored_def sv fun_eq_iff)
    have "flush_item cfg md5 (page_id, count) (s, w) =
           (s\<lparr>write_buffer := add_count (write_buffer s) page_id count\<rparr>, w')"
      using True rw Inl by (simp add: flush_item_def)
    then show ?thesis
      by (simp add: accounted_def get0_add_count st split: sum.splits prod.splits)
  next
    case (Inr v)
    then obtain client node where
      conn: "get_connection md5 (redis_manager s) (''visits:'' @ page_id) = Inr (client, node)" and
      sv: "\<forall>c k. servers w' c k =
             (if c = client \<and> k = ''visits:'' @ page_id
              then Some (stored w client (''visits:'' @ page_id) + count) else servers w c k)"
      using out by auto
    have fi: "flush_item cfg md5 (page_id, count) (s, w) = (s, w')"
      using True rw Inr by (simp add: flush_item_def)
    show ?thesis
    proof (cases "page_id = K")
      case True
      have "stored w' client (''visits:'' @ page_id) = stored w client (''visits:'' @ page_id) + count"
        using sv by (simp add: stored_def)
      then show ?thesis using conn unfolding True[symmetric]
        by (simp add: fi accounted_def)
    next
      case False
      have "stored w' c (''visits:'' @ K) = stored w c (''visits:'' @ K)" for c
        using sv False by (simp add: stored_def)
      then show ?thesis using False
        by (simp add: fi accounted_def split: sum.splits prod.splits)
    qed
  qed
qed

lemma flush_items_manager:
  "redis_manager (fst (flush_items cfg md5 items (s, w))) = redis_manager s"
proof (induction items arbitrary: s w)
  case Nil
  show ?case by simp
next
  case (Cons item items)
  obtain s1 w1 where st: "flush_item cfg md5 item (s, w) = (s1, w1)"
    by (cases "flush_item cfg md5 item (s, w)")
  have "redis_manager s1 = redis_manager s" using flush_item_manager[of cfg md5 item s w] st by simp
  then show ?case using Cons.IH[of s1 w1] st by simp
qed

lemma flush_items_accounted:
  assumes retry: "1 \<le> REDIS_RETRY_ATTEMPTS cfg"
  shows "\<forall>(k, v)\<in>set items. 0 \<le> v \<Longrightarrow>
         accounted md5 K (flush_items cfg md5 items (s, w)) =
           accounted md5 K (s, w) + sum_list (map snd (filter (\<lambda>(k, v). k = K) items))"
proof (induction items arbitrary: s w)
  case Nil
  show ?case by simp
next
  case (Cons item items)
  obtain page_id count where item: "item = (page_id, count)" by (cases item)
  obtain s1 w1 where st: "flush_item cfg md5 (page_id, count) (s, w) = (s1, w1)"
    by (cases "flush_item cfg md5 (page_id, count) (s, w)")
  have nonneg: "0 \<le> count" using Cons.prems item by simp
  have rest: "\<forall>(k, v)\<in>set items. 0 \<le> v" using Cons.prems by simp
  have "accounted md5 K (s1, w1) = accounted md5 K (s, w) + (if page_id = K then count else 0)"
    using flush_item_accounted[OF retry nonneg, of md5 K page_id s w] st by simp
  then show ?case using Cons.IH[OF rest, of s1 w1] st item by simp
qed

lemma sum_matching_distinct:
  "distinct (map fst items) \<Longrightarrow>
   sum_list (map snd (filter (\<lambda>(k, v). k = K) items)) = get0 items K"
proof (induction items)
  case Nil
  show ?case by (simp add: get0_def)
next
  case (Cons item items)
  obtain k v where item: "item = (k, v)" by (cases item)
  show ?case
  proof (cases "k = K")
    case True
    then have "K \<notin> fst ` set items" using Cons.prems item by auto
    then have "filter (\<lambda>(k, v). k = K) items = []"
      by (force simp: filter_empty_conv)
    then show ?thesis using True item by (simp add: get0_def)
  next
    case False
    then show ?thesis using Cons item by (simp add: get0_def)
  qed
qed

lemma flush_write_buffer_accounted:
  assumes retry: "1 \<le> REDIS_RETRY_ATTEMPTS cfg"
    and dist: "distinct (map fst (write_buffer s))"
    and nonneg: "\<forall>(k, v)\<in>set (write_buffer s). 0 \<le> v"
  shows "accounted md5 K (flush_write_buffer cfg md5 now (s, w)) = accounted md5 K (s, w)"
proof (cases "write_buffer s = []")
  case True
  then show ?thesis by (simp add: flush_write_buffer_def)
next
  case False
  let ?live = "s\<lparr>write_buffer := []\<rparr>"
  obtain s1 w1 where st: "flush_items cfg md5 (write_buffer s) (?live, w) = (s1, w1)"
    by (cases "flush_items cfg md5 (write_buffer s) (?live, w)")
  have rm: "redis_manager s1 = redis_manager s"
    using flush_items_manager[of cfg md5 "write_buffer s" ?live w] st by simp
  have "accounted md5 K (s1, w1) = accounted md5 K (?live, w) + get0 (write_buffer s) K"
    using flush_items_accounted[OF retry nonneg, of md5 K ?live w] st
    by (simp add: sum_matching_distinct[OF dist])
  moreover have "accounted md5 K (?live, w) + get0 (write_buffer s) K = accounted md5 K (s, w)"
    by (simp add: accounted_def get0_def)
  moreover have "accounted md5 K (s1\<lparr>last_write_time := now\<rparr>, w1) = accounted md5 K (s1, w1)"
    by (simp add: accounted_def)
  ultimately show ?thesis using False st by (simp add: flush_write_buffer_def)
qed

lemma RedisManager_increment_failure:
  assumes "RedisManager_increment cfg md5 rm key amount w = (Inl e, w')"
  shows "servers w' = servers w"
proof (cases "nat (REDIS_RETRY_ATTEMPTS cfg)")
  case 0
  with assms show ?thesis by (simp add: RedisManager_increment_def)
next
  case (Suc n)
  with assms have "increment_attempts md5 rm key amount (Suc n) w = (Inl e, w')"
    by (simp add: RedisManager_increment_def)
  from increment_attempts_outcome[OF this] show ?thesis by simp
qed

text \<open>The buffer invariant is kept by every operation of the service.\<close>

lemma set_update_subset: "set (AList.update k v al) \<subseteq> insert (k, v) (set al)"
  by (induction al) auto

lemma get0_nonneg: "buffer_ok b \<Longrightarrow> 0 \<le> get0 b k"
  by (auto simp: buffer_ok_def get0_def split: option.splits dest!: map_of_SomeD)

lemma buffer_ok_update: "buffer_ok b \<Longrightarrow> 0 \<le> v \<Longrightarrow> buffer_ok (AList.update k v b)"
  using set_update_subset[of k v b] by (auto simp: buffer_ok_def AList.distinct_update)

lemma buffer_ok_add_count: "buffer_ok b \<Longrightarrow> 0 \<le> n \<Longrightarrow> buffer_ok (add_count b k n)"
  by (simp add: add_count_def Let_def buffer_ok_update get0_nonneg)

lemma buffer_ok_delete: "buffer_ok b \<Longrightarrow> buffer_ok (AList.delete k b)"
proof -
  have "set (AList.delete k b) \<subseteq> set b" by (auto simp: AList.delete_eq)
  then show "buffer_ok b \<Longrightarrow> buffer_ok (AList.delete k b)"
    by (auto simp: buffer_ok_def AList.distinct_delete)
qed

lemma buffer_ok_increment_visit:
  "buffer_ok (write_buffer s) \<Longrightarrow> buffer_ok (write_buffer (increment_visit page_id s))"
  by (simp add: increment_visit_def Let_def buffer_ok_add_count)

lemma buffer_ok_reset_counter:
  "buffer_ok (write_buffer s) \<Longrightarrow>
   buffer_ok (write_buffer (fst (snd (reset_counter md5 page_id (s, w)))))"
  by (simp add: reset_counter_def Let_def buffer_ok_delete split: prod.splits sum.splits)

lemma buffer_ok_flush_item:
  "buffer_ok (write_buffer s) \<Longrightarrow> buffer_ok (write_buffer (fst (flush_item cfg md5 item (s, w))))"
  by (cases item) (simp add: flush_item_def buffer_ok_add_count split: prod.splits sum.splits)

lemma buffer_ok_flush_items:
  "buffer_ok (write_buffer s) \<Longrightarrow> buffer_ok (write_buffer (fst (flush_items cfg md5 items (s, w))))"
proof (induction items arbitrary: s w)
  case Nil
  then show ?case by simp
next
  case (Cons item items)
  obtain s1 w1 where st: "flush_item cfg md5 item (s, w) = (s1, w1)"
    by (cases "flush_item cfg md5 item (s, w)")
  have "buffer_ok (write_buffer s1)" using buffer_ok_flush_item[OF Cons.prems, of cfg md5 item w] st by simp
  then show ?case using Cons.IH[of s1 w1] st by simp
qed

lemma buffer_ok_flush_write_buffer:
  "buffer_ok (write_buffer s) \<Longrightarrow>
   buffer_ok (write_buffer (fst (flush_write_buffer cfg md5 now (s, w))))"
proof (cases "write_buffer s = []")
  case True
  then show ?thesis by (simp add: flush_write_buffer_def buffer_ok_def)
next
  case False
  obtain s1 w1 where st: "flush_items cfg md5 (write_buffer s) (s\<lparr>write_buffer := []\<rparr>, w) = (s1, w1)"
    by (cases "flush_items cfg md5 (write_buffer s) (s\<lparr>write_buffer := []\<rparr>, w)")
  have "buffer_ok (write_buffer (s\<lparr>write_buffer := []\<rparr>))" by (simp add: buffer_ok_def)
  from buffer_ok_flush_items[OF this, of cfg md5 "write_buffer s" w]
  have "buffer_ok (write_buffer s1)" using st by simp
  then show ?thesis using False st by (simp add: flush_write_buffer_def)
qed

lemma buffer_ok_get_visit_count:
  "buffer_ok (write_buffer s) \<Longrightarrow>
   buffer_ok (write_buffer (fst (snd (get_visit_count cfg md5 now page_id (s, w)))))"
  by (simp add: get_visit_count_degrades)

text \<open>
  Claim C7. In the flush loop, when the shard increment of a snapshotted key with a
  positive count raises, the count is added to what the live buffer holds for the key at
  that moment (whatever has accumulated since the snapshot), the other keys of the buffer
  and the servers are unchanged. Consequently a flush drops nothing: for every page the
  buffered count plus the count on the shard its key routes to is the same after the
  flush as before, for a buffer with non-negative counts and at least one retry attempt.
\<close>

theorem flush_defers_never_drops:
  "(0 < count \<and>
    RedisManager_increment cfg md5 (redis_manager s) (''visits:'' @ page_id) count w = (Inl e, w') \<longrightarrow>
      (\<exists>s'. flush_item cfg md5 (page_id, count) (s, w) = (s', w') \<and>
            map_of (write_buffer s') page_id = Some (get0 (write_buffer s) page_id + count) \<and>
            (\<forall>k. k \<noteq> page_id \<longrightarrow> map_of (write_buffer s') k = map_of (write_buffer s) k) \<and>
            servers w' = servers w)) \<and>
   (1 \<le> REDIS_RETRY_ATTEMPTS cfg \<and> buffer_ok (write_buffer s) \<longrightarrow>
      accounted md5 K (flush_write_buffer cfg md5 now (s, w)) = accounted md5 K (s, w))"
proof (intro conjI impI)
  assume a: "0 < count \<and>
    RedisManager_increment cfg md5 (redis_manager s) (''visits:'' @ page_id) count w = (Inl e, w')"
  then have f: "flush_item cfg md5 (page_id, count) (s, w) =
           (s\<lparr>write_buffer := add_count (write_buffer s) page_id count\<rparr>, w')"
    by (intro flush_item_restores) simp_all
  have "servers w' = servers w" using a RedisManager_increment_failure by blast
  then show "\<exists>s'. flush_item cfg md5 (page_id, count) (s, w) = (s', w') \<and>
            map_of (write_buffer s') page_id = Some (get0 (write_buffer s) page_id + count) \<and>
            (\<forall>k. k \<noteq> page_id \<longrightarrow> map_of (write_buffer s') k = map_of (write_buffer s) k) \<and>
            servers w' = servers w"
    using f by (simp add: map_of_add_count)
next
  assume "1 \<le> REDIS_RETRY_ATTEMPTS cfg \<and> buffer_ok (write_buffer s)"
  then show "accounted md5 K (flush_write_buffer cfg md5 now (s, w)) = accounted md5 K (s, w)"
    using flush_write_buffer_accounted by (simp add: buffer_ok_def)
qed

lemma incr_down:
  "RedisManager_increment settings md5_sample (redis_manager service_pending)
      (''visits:'' @ ''page-A'') 2 world_down = (Inl Failed, world0)"
  using conn0
  by (simp add: service_pending_def service0_def RedisManager_increment_def settings_def
      numeral_3_eq_3 client_incr_def raises_def world_down_def world0_def)

theorem flush_defers_never_drops_witness:
  "(0::int) < 2 \<and>
   RedisManager_increment settings md5_sample (redis_manager service_pending)
      (''visits:'' @ ''page-A'') 2 world_down = (Inl Failed, world0) \<and>
   1 \<le> REDIS_RETRY_ATTEMPTS settings \<and> write_buffer service_pending = [(''page-A'', 2)] \<and>
   map_of (write_buffer (fst (flush_item settings md5_sample (''page-A'', 2) (service_pending, world_down))))
      ''page-A'' = Some 4 \<and>
   ''page-C'' \<noteq> ''page-A'' \<and>
   map_of (write_buffer (fst (flush_item settings md5_sample (''page-A'', 2) (service_pending, world_down))))
      ''page-C'' = map_of (write_buffer service_pending) ''page-C'' \<and>
   accounted md5_sample ''page-A'' (flush_write_buffer settings md5_sample 5 (service_pending, world_down)) = 2"
proof -
  have h1: "(0::int) < 2 \<and>
     RedisManager_increment settings md5_sample (redis_manager service_pending)
      (''visits:'' @ ''page-A'') 2 world_down = (Inl Failed, world0)"
    using incr_down by simp
  have h2: "1 \<le> REDIS_RETRY_ATTEMPTS settings \<and> buffer_ok (write_buffer service_pending)"
    by (simp add: settings_def service_pending_def buffer_ok_def)
  note t = flush_defers_never_drops[of 2 settings md5_sample service_pending "''page-A''" world_down
      Failed world0 "''page-A''" 5]
  from t h1 obtain s' where
    s': "flush_item settings md5_sample (''page-A'', 2) (service_pending, world_down) = (s', world0)"
        "map_of (write_buffer s') ''page-A'' = Some (get0 (write_buffer service_pending) ''page-A'' + 2)"
        "\<forall>k. k \<noteq> ''page-A'' \<longrightarrow> map_of (write_buffer s') k = map_of (write_buffer service_pending) k"
    by blast
  have a0: "''page-C'' \<noteq> ''page-A'' \<and>
    map_of (write_buffer (fst (flush_item settings md5_sample (''page-A'', 2) (service_pending, world_down))))
      ''page-C'' = map_of (write_buffer service_pending) ''page-C''"
    using s'(1,3) by simp
  have g: "get0 (write_buffer service_pending) ''page-A'' = 2"
    by (simp add: get0_def service_pending_def)
  have a1: "map_of (write_buffer (fst (flush_item settings md5_sample (''page-A'', 2)
      (service_pending, world_down)))) ''page-A'' = Some 4"
    using s' g by simp
  have "accounted md5_sample ''page-A'' (service_pending, world_down) = 2"
    using conn0 g
    by (simp add: accounted_def service_pending_def service0_def stored_def world_down_def world0_def)
  with t h2 have a2: "accounted md5_sample ''page-A''
      (flush_write_buffer settings md5_sample 5 (service_pending, world_down)) = 2"
    by simp
  have h3: "1 \<le> REDIS_RETRY_ATTEMPTS settings \<and> write_buffer service_pending = [(''page-A'', 2)]"
    by (simp add: settings_def service_pending_def)
  from h1 h3 a0 a1 a2 show ?thesis by blast
qed

section \<open>The cache bound\<close>









section \<open>Ring membership\<close>

text \<open>
  Every ring that \<^verbatim>\<open>add_node\<close> and \<^verbatim>\<open>remove_node\<close> produce satisfies \<open>ring_ok\<close>, the
  hypothesis of the lookup theorem.
\<close>

lemma distinct_add_virtual:
  "add_virtual md5 node is ring = Some ring' \<Longrightarrow> distinct (map fst ring) \<Longrightarrow>
   distinct (map fst ring')"
proof (induction "is" arbitrary: ring)
  case Nil
  then show ?case by simp
next
  case (Cons i "is")
  then show ?case
    by (auto split: option.splits intro: AList.distinct_update)
qed

lemma ring_ok_add_node:
  "add_node md5 ch node = Some ch' \<Longrightarrow> ring_ok ch \<Longrightarrow> ring_ok ch'"
  by (auto simp: add_node_def ring_ok_def split: if_splits option.splits
      dest: distinct_add_virtual)

lemma distinct_fold_delete:
  "distinct (map fst ring) \<Longrightarrow> distinct (map fst (fold AList.delete ks ring))"
  by (induction ks arbitrary: ring) (simp_all add: AList.distinct_delete)

lemma ring_ok_remove_node:
  "remove_node md5 ch node = Inr ch' \<Longrightarrow> ring_ok ch \<Longrightarrow> ring_ok ch'"
  by (auto simp: remove_node_def ring_ok_def Let_def split: if_splits
      intro: distinct_fold_delete)

lemma ring_ok_empty: "ring_ok (empty_ring v)"
  by (simp add: ring_ok_def empty_ring_def)

lemma ring_ok_apply_ops:
  "apply_ops md5 ch ops = Some (Inr ch') \<Longrightarrow> ring_ok ch \<Longrightarrow> ring_ok ch'"
proof (induction ops arbitrary: ch)
  case Nil
  then show ?case by simp
next
  case (Cons op ops)
  show ?case
  proof (cases op)
    case (Add node)
    with Cons.prems obtain ch1 where "add_node md5 ch node = Some ch1" "apply_ops md5 ch1 ops = Some (Inr ch')"
      by (auto split: option.splits)
    then show ?thesis using Cons.IH Cons.prems(2) ring_ok_add_node by blast
  next
    case (Remove node)
    with Cons.prems obtain ch1 where "remove_node md5 ch node = Inr ch1" "apply_ops md5 ch1 ops = Some (Inr ch')"
      by (auto split: sum.splits)
    then show ?thesis using Cons.IH Cons.prems(2) ring_ok_remove_node by blast
  qed
qed

lemma add_nodes_apply_ops: "add_nodes md5 ch ns = (case apply_ops md5 ch (map Add ns) of
    None \<Rightarrow> None | Some (Inl e) \<Rightarrow> None | Some (Inr ch') \<Rightarrow> Some ch')"
  by (induction ns arbitrary: ch) (auto split: option.splits sum.splits)

lemma ring_ok_init: "ConsistentHash_init md5 ns v = Some ch \<Longrightarrow> ring_ok ch"
  using ring_ok_apply_ops[of md5 "empty_ring v" "map Add ns" ch] ring_ok_empty[of v]
  by (auto simp: ConsistentHash_init_def add_nodes_apply_ops empty_ring_def
      split: option.splits sum.splits)

text \<open>
  Labels are injective: the decimal index has no underscore, so the last underscore of a
  label separates the shard from the index. Two labels with the same hash are therefore
  a collision of the hash function.
\<close>

lemma digit_char:
  assumes "d < 10"
  shows "(of_char (''0123456789'' ! d) :: nat) = 48 + d \<and> ''0123456789'' ! d \<noteq> CHR ''_''"
proof -
  from assms have "d = 0 \<or> d = 1 \<or> d = 2 \<or> d = 3 \<or> d = 4 \<or> d = 5 \<or> d = 6
    \<or> d = 7 \<or> d = 8 \<or> d = 9" by presburger
  then show ?thesis by (elim disjE) simp_all
qed

lemma str_nat_no_underscore: "CHR ''_'' \<notin> set (str_nat n)"
proof (induction n rule: str_nat.induct)
  case (1 n)
  show ?case
  proof (cases "n < 10")
    case True
    then show ?thesis using digit_char[of n] by (subst str_nat.simps) auto
  next
    case False
    have "n mod 10 < 10" by simp
    then show ?thesis using "1.IH"[OF False] False digit_char[of "n mod 10"]
      by (subst str_nat.simps) auto
  qed
qed

lemma digits_value_str_nat: "digits_value (str_nat n) = n"
proof (induction n rule: str_nat.induct)
  case (1 n)
  show ?case
  proof (cases "n < 10")
    case True
    then show ?thesis using digit_char[of n] by (subst str_nat.simps) simp
  next
    case False
    have "n mod 10 < 10" by simp
    then show ?thesis using "1.IH"[OF False] False digit_char[of "n mod 10"]
      by (subst str_nat.simps) simp
  qed
qed

lemma str_nat_inj: "str_nat n = str_nat m \<Longrightarrow> n = m"
  by (metis digits_value_str_nat)

lemma split_at_last:
  assumes "xs @ c # ys = xs' @ c # ys'" and "c \<notin> set ys" and "c \<notin> set ys'"
  shows "xs = xs' \<and> ys = ys'"
proof -
  have "rev ys @ c # rev xs = rev ys' @ c # rev xs'"
    using arg_cong[OF assms(1), of rev] by simp
  then have "takeWhile (\<lambda>x. x \<noteq> c) (rev ys @ c # rev xs) = takeWhile (\<lambda>x. x \<noteq> c) (rev ys' @ c # rev xs')"
    by simp
  moreover have "takeWhile (\<lambda>x. x \<noteq> c) (rev ys @ c # rev xs) = rev ys"
    using assms(2) by (subst takeWhile_append2) auto
  moreover have "takeWhile (\<lambda>x. x \<noteq> c) (rev ys' @ c # rev xs') = rev ys'"
    using assms(3) by (subst takeWhile_append2) auto
  ultimately have "ys = ys'" by simp
  then show ?thesis using assms(1) by simp
qed

lemma virtual_node_key_inj:
  "virtual_node_key n i = virtual_node_key n' i' \<Longrightarrow> n = n' \<and> i = i'"
  using split_at_last[of n "CHR ''_''" "str_nat i" n' "str_nat i'"]
    str_nat_no_underscore str_nat_inj
  by (auto simp: virtual_node_key_def)




















end
